theory Spec2Isabelle
  imports Complex_Main "HOL-Library.Word" "HOL-Library.Signed_Division" "HOL-Library.Log_Nat"
begin

section \<open>Machine types\<close>

text \<open>
  The program computes with \<open>unsigned char\<close> (8 bits), \<open>int\<close> (32 bits, two's
  complement) and \<open>long long\<close> (64 bits). They are words; \<open>sint\<close> reads the signed
  value of an \<open>int\<close>, and \<open>+\<close> and \<open>*\<close> wrap around, which is what the usual targets
  do where C++ leaves signed overflow undefined.
\<close>

type_synonym uchar = "8 word"
type_synonym cint = "32 word"
type_synonym longlong = "64 word"

text \<open>The operator \<open>%\<close> on \<open>int\<close> truncates towards zero.\<close>

definition c_rem :: "cint \<Rightarrow> cint \<Rightarrow> cint" where
  "c_rem x y = word_of_int (sint x smod sint y)"

text \<open>Integral promotion of an \<open>unsigned char\<close> to \<open>int\<close>, and the narrowing
  conversion back, which keeps the low eight bits.\<close>

definition promote :: "uchar \<Rightarrow> cint" where
  "promote c = ucast c"

definition narrow :: "cint \<Rightarrow> uchar" where
  "narrow x = ucast x"

section \<open>The image\<close>

datatype error = LengthError | OutOfBounds | CastOutOfRange | NullPointer

record Image =
  width :: cint
  height :: cint
  r :: "uchar list"
  g :: "uchar list"
  b :: "uchar list"
  gray :: "uchar list"

text \<open>\<open>int size = width * height\<close>, as every function of the program computes it.\<close>

definition size_of :: "Image \<Rightarrow> cint" where
  "size_of img = width img * height img"

definition pixels :: "Image \<Rightarrow> nat" where
  "pixels img = nat (sint (size_of img))"

text \<open>
  The constructor. \<open>resize\<close> takes a \<open>size_t\<close>: a negative \<open>size\<close> converts to a
  value beyond \<open>max_size()\<close> and \<open>resize\<close> throws \<open>std::length_error\<close>. Otherwise
  the four vectors get \<open>size\<close> zero bytes each; running out of memory is not modelled.
\<close>

definition new_Image :: "cint \<Rightarrow> cint \<Rightarrow> error + Image" where
  "new_Image w h =
     (let size = w * h in
      if sint size < 0 then Inl LengthError
      else Inr \<lparr>width = w, height = h,
                r = replicate (nat (sint size)) 0,
                g = replicate (nat (sint size)) 0,
                b = replicate (nat (sint size)) 0,
                gray = replicate (nat (sint size)) 0\<rparr>)"

text \<open>The invariant of the data model: four channels of \<open>width * height\<close> bytes.\<close>

definition wf_Image :: "Image \<Rightarrow> bool" where
  "wf_Image img \<longleftrightarrow>
     0 \<le> sint (size_of img) \<and>
     length (r img) = pixels img \<and> length (g img) = pixels img \<and>
     length (b img) = pixels img \<and> length (gray img) = pixels img"

text \<open>
  The same invariant with the product of width and height taken in the integers, as the
  data model words it. The two agree when the product fits an \<open>int\<close>.
\<close>

definition channels_match :: "Image \<Rightarrow> bool" where
  "channels_match img \<longleftrightarrow>
     int (length (r img)) = sint (width img) * sint (height img) \<and>
     int (length (g img)) = sint (width img) * sint (height img) \<and>
     int (length (b img)) = sint (width img) * sint (height img) \<and>
     int (length (gray img)) = sint (width img) * sint (height img)"

section \<open>The loops\<close>

text \<open>
  Every kernel is \<open>for (int i = 0; i < size; i++) body\<close>. The counter stays below
  \<open>size\<close>, an \<open>int\<close>, so \<open>i++\<close> never overflows; the model counts in \<open>nat\<close> and
  converts \<open>i\<close> to \<open>int\<close> where the body computes with it. A body that indexes a
  vector out of range (\<open>operator[]\<close> does not check) stops the loop with an error.
\<close>

function for_loop :: "nat \<Rightarrow> nat \<Rightarrow> (nat \<Rightarrow> 's \<Rightarrow> error + 's) \<Rightarrow> 's \<Rightarrow> error + 's" where
  "for_loop i n body s =
     (if i < n then
        (case body i s of Inl e \<Rightarrow> Inl e | Inr s' \<Rightarrow> for_loop (Suc i) n body s')
      else Inr s)"
  by pat_completeness auto
termination
  by (relation "measure (\<lambda>(i, n, body, s). n - i)") auto

declare for_loop.simps [simp del]

subsection \<open>Function 1: generateImageData\<close>

definition generate_body :: "nat \<Rightarrow> Image \<Rightarrow> error + Image" where
  "generate_body i img =
     (if i < length (r img) \<and> i < length (g img) \<and> i < length (b img) then
        Inr (img\<lparr>r := (r img)[i := narrow (c_rem (of_nat i * 123) 256)],
                 g := (g img)[i := narrow (c_rem (of_nat i * 456) 256)],
                 b := (b img)[i := narrow (c_rem (of_nat i * 789) 256)]\<rparr>)
      else Inl OutOfBounds)"

definition generateImageData :: "Image \<Rightarrow> error + Image" where
  "generateImageData img = for_loop 0 (pixels img) generate_body img"

subsection \<open>Function 4: adjustBrightness\<close>

definition adjust_pixel :: "cint \<Rightarrow> uchar \<Rightarrow> uchar" where
  "adjust_pixel offset p =
     (let newVal = promote p + offset;
          newVal = (if 255 <s newVal then 255 else newVal);
          newVal = (if newVal <s 0 then 0 else newVal)
      in narrow newVal)"

definition adjust_body :: "cint \<Rightarrow> nat \<Rightarrow> Image \<Rightarrow> error + Image" where
  "adjust_body offset i img =
     (if i < length (gray img) then
        Inr (img\<lparr>gray := (gray img)[i := adjust_pixel offset (gray img ! i)]\<rparr>)
      else Inl OutOfBounds)"

definition adjustBrightness :: "Image \<Rightarrow> cint \<Rightarrow> error + Image" where
  "adjustBrightness img offset = for_loop 0 (pixels img) (adjust_body offset) img"

subsection \<open>Function 5: applyThreshold\<close>

definition threshold_pixel :: "uchar \<Rightarrow> uchar \<Rightarrow> uchar" where
  "threshold_pixel threshold p = (if threshold \<le> p then 255 else 0)"

definition threshold_body :: "uchar \<Rightarrow> nat \<Rightarrow> Image \<Rightarrow> error + Image" where
  "threshold_body threshold i img =
     (if i < length (gray img) then
        Inr (img\<lparr>gray := (gray img)[i := threshold_pixel threshold (gray img ! i)]\<rparr>)
      else Inl OutOfBounds)"

definition applyThreshold :: "Image \<Rightarrow> uchar \<Rightarrow> error + Image" where
  "applyThreshold img threshold = for_loop 0 (pixels img) (threshold_body threshold) img"

section \<open>Binary64 arithmetic\<close>

text \<open>
  A finite \<open>double\<close> is modelled by its value, a rational number. An operation
  delivers the exact result rounded to the nearest number with a significand of 53 bits,
  ties to the even significand (the default rounding of IEEE 754), and every operation of
  an expression is rounded on its own: no fused multiply-add and no wider intermediate
  format. The exponent range is not modelled; the values this program computes are zero
  or lie between \<open>2 powi - 31\<close> and \<open>2 ^ 39\<close>, far from overflow and underflow.
\<close>

text \<open>The nearest integer, ties to even.\<close>

definition round_ties_even :: "rat \<Rightarrow> int" where
  "round_ties_even x =
     (let n = \<lfloor>x\<rfloor>; f = x - of_int n in
      if f < 1 / 2 then n else if 1 / 2 < f then n + 1 else if even n then n else n + 1)"

text \<open>The exponent \<open>e\<close> with \<open>2 powi e \<le> \<bar>x\<bar> < 2 powi (e + 1)\<close>, for \<open>x \<noteq> 0\<close>.\<close>

definition binade :: "rat \<Rightarrow> int" where
  "binade x =
     (let (p, q) = quotient_of \<bar>x\<bar>; e = bitlen p - bitlen q in
      if 2 powi e \<le> \<bar>x\<bar> then e else e - 1)"

definition round_double :: "rat \<Rightarrow> rat" where
  "round_double x =
     (if x = 0 then 0
      else let u = 2 powi (binade x - 52) in of_int (round_ties_even (x / u)) * u)"

text \<open>
  The result of a division is a \<open>double\<close> that may be infinite or not a number:
  division by zero does not trap.
\<close>

datatype double = Finite rat | Infinity bool | NaN

definition dmul :: "rat \<Rightarrow> rat \<Rightarrow> rat" where
  "dmul x y = round_double (x * y)"

definition dadd :: "rat \<Rightarrow> rat \<Rightarrow> rat" where
  "dadd x y = round_double (x + y)"

definition ddiv :: "rat \<Rightarrow> rat \<Rightarrow> double" where
  "ddiv x y =
     (if y = 0 then (if x = 0 then NaN else Infinity (0 < x))
      else Finite (round_double (x / y)))"

text \<open>Conversions between the integer types and \<open>double\<close>. The one to
  \<open>unsigned char\<close> truncates towards zero and is undefined when the truncated value
  does not fit.\<close>

definition double_of_uchar :: "uchar \<Rightarrow> rat" where
  "double_of_uchar c = round_double (of_int (uint c))"

definition double_of_int :: "cint \<Rightarrow> rat" where
  "double_of_int x = round_double (of_int (sint x))"

definition double_of_longlong :: "longlong \<Rightarrow> rat" where
  "double_of_longlong x = round_double (of_int (sint x))"

definition uchar_of_double :: "rat \<Rightarrow> error + uchar" where
  "uchar_of_double x =
     (let t = (if 0 \<le> x then \<lfloor>x\<rfloor> else \<lceil>x\<rceil>) in
      if 0 \<le> t \<and> t \<le> 255 then Inr (word_of_int t) else Inl CastOutOfRange)"

text \<open>The literals \<open>0.299\<close>, \<open>0.587\<close> and \<open>0.114\<close>: the nearest doubles.\<close>

definition lit_0299 :: rat where
  "lit_0299 = round_double (299 / 1000)"

definition lit_0587 :: rat where
  "lit_0587 = round_double (587 / 1000)"

definition lit_0114 :: rat where
  "lit_0114 = round_double (114 / 1000)"

subsection \<open>Function 2: convertToGrayscale\<close>

text \<open>\<open>0.299 * r + 0.587 * g + 0.114 * b\<close>, the additions from left to right.\<close>

definition gray_value :: "uchar \<Rightarrow> uchar \<Rightarrow> uchar \<Rightarrow> rat" where
  "gray_value rv gv bv =
     dadd (dadd (dmul lit_0299 (double_of_uchar rv)) (dmul lit_0587 (double_of_uchar gv)))
          (dmul lit_0114 (double_of_uchar bv))"

definition convert_body :: "nat \<Rightarrow> Image \<Rightarrow> error + Image" where
  "convert_body i img =
     (if i < length (r img) \<and> i < length (g img) \<and> i < length (b img) \<and> i < length (gray img)
      then (case uchar_of_double (gray_value (r img ! i) (g img ! i) (b img ! i)) of
              Inl e \<Rightarrow> Inl e
            | Inr c \<Rightarrow> Inr (img\<lparr>gray := (gray img)[i := c]\<rparr>))
      else Inl OutOfBounds)"

definition convertToGrayscale :: "Image \<Rightarrow> error + Image" where
  "convertToGrayscale img = for_loop 0 (pixels img) convert_body img"

subsection \<open>Function 3: calculateAverageGray\<close>

text \<open>The image is a \<open>const\<close> reference: the loop state is the accumulator \<open>sum\<close>
  (written \<open>sum_acc\<close>).\<close>

definition sum_body :: "Image \<Rightarrow> nat \<Rightarrow> longlong \<Rightarrow> error + longlong" where
  "sum_body img i sum_acc =
     (if i < length (gray img) then Inr (sum_acc + ucast (gray img ! i)) else Inl OutOfBounds)"

definition calculateAverageGray :: "Image \<Rightarrow> error + double" where
  "calculateAverageGray img =
     (case for_loop 0 (pixels img) (sum_body img) 0 of
        Inl e \<Rightarrow> Inl e
      | Inr sum_acc \<Rightarrow> Inr (ddiv (double_of_longlong sum_acc) (double_of_int (size_of img))))"

subsection \<open>A call of one of the five functions\<close>

text \<open>
  The caller's image after a call, with the value returned, if any. The four kernels
  that take \<open>Image&\<close> hand back the image they changed; \<open>calculateAverageGray\<close>
  takes \<open>const Image&\<close> and the caller keeps the image it passed.
\<close>

datatype operation = Generate | Convert | Average | Adjust cint | Threshold uchar

fun call :: "operation \<Rightarrow> Image \<Rightarrow> error + Image \<times> double option" where
  "call Generate img = map_sum id (\<lambda>img'. (img', None)) (generateImageData img)"
| "call Convert img = map_sum id (\<lambda>img'. (img', None)) (convertToGrayscale img)"
| "call Average img = map_sum id (\<lambda>avg. (img, Some avg)) (calculateAverageGray img)"
| "call (Adjust offset) img = map_sum id (\<lambda>img'. (img', None)) (adjustBrightness img offset)"
| "call (Threshold t) img = map_sum id (\<lambda>img'. (img', None)) (applyThreshold img t)"

subsection \<open>The command line of main\<close>

text \<open>
  \<open>args\<close> holds \<open>argv[0]\<close> to \<open>argv[argc - 1]\<close>, the program name first.
  \<open>argv[argc]\<close> is a null pointer and nothing lies behind it. \<open>atoi\<close> belongs to
  the C library and is a parameter; it must not be given a null pointer.
\<close>

definition argv_at :: "string list \<Rightarrow> nat \<Rightarrow> error + string option" where
  "argv_at args k =
     (if k < length args then Inr (Some (args ! k))
      else if k = length args then Inr None
      else Inl OutOfBounds)"

definition call_atoi :: "(string \<Rightarrow> cint) \<Rightarrow> error + string option \<Rightarrow> error + cint" where
  "call_atoi atoi p =
     (case p of Inl e \<Rightarrow> Inl e | Inr None \<Rightarrow> Inl NullPointer | Inr (Some s) \<Rightarrow> Inr (atoi s))"

text \<open>The values of \<open>width\<close> and \<open>height\<close> with which \<open>main\<close> builds the image.\<close>

definition main_dimensions :: "(string \<Rightarrow> cint) \<Rightarrow> string list \<Rightarrow> error + cint \<times> cint" where
  "main_dimensions atoi args =
     (let width = 1024; height = 1024 in
      if 1 < length args then
        (case call_atoi atoi (argv_at args 1) of
           Inl e \<Rightarrow> Inl e
         | Inr width \<Rightarrow>
             (case call_atoi atoi (argv_at args 2) of
                Inl e \<Rightarrow> Inl e
              | Inr height \<Rightarrow> Inr (width, height)))
      else Inr (width, height))"

section \<open>Properties of the loop\<close>

lemma for_loop_invariant:
  assumes "I i s" and "i \<le> n"
    and step: "\<And>j t. i \<le> j \<Longrightarrow> j < n \<Longrightarrow> I j t \<Longrightarrow> \<exists>t'. body j t = Inr t' \<and> I (Suc j) t'"
  shows "\<exists>s'. for_loop i n body s = Inr s' \<and> I n s'"
  using assms
proof (induction i n body s rule: for_loop.induct)
  case (1 i n body s)
  show ?case
  proof (cases "i < n")
    case True
    from "1.prems"(3) [of i s] True "1.prems"(1)
    obtain t' where t': "body i s = Inr t'" "I (Suc i) t'" by auto
    have "\<exists>s'. for_loop (Suc i) n body t' = Inr s' \<and> I n s'"
    proof (rule "1.IH" [OF True t'(1) t'(2)])
      show "Suc i \<le> n" using True by simp
      show "\<exists>t'. body j t = Inr t' \<and> I (Suc j) t'" if "Suc i \<le> j" "j < n" "I j t" for j t
        using "1.prems"(3) [of j t] that by simp
    qed
    with True t' show ?thesis by (simp add: for_loop.simps [of i])
  next
    case False
    then have "for_loop i n body s = Inr s" by (simp add: for_loop.simps [of i])
    moreover from False "1.prems"(2) have "i = n" by simp
    ultimately show ?thesis using "1.prems"(1) by simp
  qed
qed

section \<open>Bytes and integers\<close>

text \<open>
  The remainder by 256 and the narrowing to a byte commute with the mathematical
  \<open>mod 256\<close>, whatever the sign of the \<open>int\<close> and also when a product has
  wrapped around, since 256 divides \<open>2 ^ 32\<close>.
\<close>

lemma smod_256_mod: "(k smod 256) mod 256 = k mod (256::int)"
proof (cases "0 \<le> k")
  case True
  then show ?thesis by (simp add: smod_int_alt_def sgn_if)
next
  case False
  then have "k smod 256 = - ((- k) mod 256)" by (simp add: smod_int_alt_def sgn_if)
  also have "(- ((- k) mod 256)) mod 256 = k mod 256" by (simp add: mod_minus_eq)
  finally show ?thesis .
qed

lemma mod_2p32_mod_256: "(k mod 4294967296) mod 256 = k mod (256::int)"
  by (rule mod_mod_cancel) simp

lemma uint_narrow: "uint (narrow x) = uint x mod 256"
  by (simp add: narrow_def unsigned_ucast_eq take_bit_eq_mod)

lemma uint_narrow_sint: "uint (narrow x) = sint x mod 256"
proof -
  have "uint x = sint x mod 4294967296"
    by (simp add: uint_sint take_bit_eq_mod)
  then show ?thesis by (simp add: uint_narrow mod_2p32_mod_256)
qed

lemma uint_narrow_of_int: "uint (narrow (word_of_int k)) = k mod 256"
  by (simp add: uint_narrow uint_word_of_int mod_2p32_mod_256)


lemma narrow_c_rem: "unat (narrow (c_rem (of_nat i * of_nat k) 256)) = (i * k) mod 256"
proof -
  have "uint (narrow (c_rem (of_nat i * of_nat k) 256)) = sint (of_nat i * of_nat k :: cint) mod 256"
    by (simp add: c_rem_def uint_narrow_of_int smod_256_mod)
  also have "\<dots> = uint (narrow (of_nat i * of_nat k :: cint))"
    by (simp add: uint_narrow_sint)
  also have "\<dots> = uint (word_of_int (int (i * k)) :: cint) mod 256"
    by (simp add: uint_narrow)
  also have "\<dots> = int (i * k) mod 256"
    by (simp only: uint_word_of_int) (simp add: mod_2p32_mod_256)
  also have "\<dots> = int ((i * k) mod 256)"
    by (simp add: zmod_int)
  finally have "nat (uint (narrow (c_rem (of_nat i * of_nat k) 256))) = (i * k) mod 256"
    by (simp only: nat_int)
  then show ?thesis
    by (simp only: unat_eq_nat_uint)
qed

subsection \<open>The clamped sum of adjustBrightness\<close>

lemma uint_uchar_less: "uint (p :: uchar) < 256"
  using uint_bounded [of p] by simp

lemma sint_promote: "sint (promote p) = uint p"
proof -
  have "uint p < 2 ^ 31" using uint_uchar_less [of p] by simp
  moreover have "- (2 ^ 31) \<le> uint p"
    by (rule order_trans [of _ 0]) simp_all
  ultimately show ?thesis
    by (simp add: promote_def signed_ucast_eq signed_take_bit_int_eq_self)
qed

lemma sint_cint_range: "- 2147483648 \<le> sint (x :: cint) \<and> sint x < 2147483648"
  using sint_ge [of x] sint_lt [of x] by simp

lemma sint_promote_plus:
  assumes "uint p + sint offset < 2147483648"
  shows "sint (promote p + offset) = uint p + sint offset"
proof -
  have "- 2147483648 \<le> uint p + sint offset"
    using uint_nonnegative [of p] sint_cint_range [of offset] by linarith
  then have "- (2 ^ 31) \<le> uint p + sint offset" by simp
  moreover have "uint p + sint offset < 2 ^ 31" using assms by simp
  ultimately have "signed_take_bit 31 (uint p + sint offset) = uint p + sint offset"
    by (rule signed_take_bit_int_eq_self)
  then show ?thesis by (simp add: sint_word_ariths sint_promote)
qed

lemma adjust_pixel_in_range:
  assumes "uint p + sint offset < 2147483648"
  shows "uint (adjust_pixel offset p) = max 0 (min 255 (uint p + sint offset))"
proof -
  let ?v = "promote p + offset"
  have v: "sint ?v = uint p + sint offset" using assms by (rule sint_promote_plus)
  consider "255 < sint ?v" | "sint ?v < 0" | "0 \<le> sint ?v" "sint ?v \<le> 255" by linarith
  then show ?thesis
  proof cases
    case 1
    then have "adjust_pixel offset p = narrow 255"
      by (simp add: adjust_pixel_def Let_def word_sless_alt)
    with 1 v show ?thesis by (simp add: uint_narrow)
  next
    case 2
    then have "adjust_pixel offset p = narrow 0"
      by (simp add: adjust_pixel_def Let_def word_sless_alt)
    with 2 v show ?thesis by (simp add: uint_narrow)
  next
    case 3
    then have "adjust_pixel offset p = narrow ?v"
      by (simp add: adjust_pixel_def Let_def word_sless_alt)
    with 3 v show ?thesis by (simp add: uint_narrow_sint)
  qed
qed

lemma adjust_pixel_zero: "adjust_pixel 0 p = p"
proof -
  have "uint (adjust_pixel 0 p) = uint p"
    using adjust_pixel_in_range [of p 0] uint_uchar_less [of p] uint_nonnegative [of p] by simp
  then show ?thesis by (simp add: word_uint_eq_iff)
qed

lemma adjust_pixel_plus_1000: "adjust_pixel 1000 p = 255"
proof -
  have "uint (adjust_pixel 1000 p) = 255"
    using adjust_pixel_in_range [of p 1000] uint_uchar_less [of p] uint_nonnegative [of p] by simp
  then show ?thesis by (simp add: word_uint_eq_iff)
qed

lemma adjust_pixel_minus_1000: "adjust_pixel (- 1000) p = 0"
proof -
  have "uint (adjust_pixel (- 1000) p) = 0"
    using adjust_pixel_in_range [of p "- 1000"] uint_uchar_less [of p] uint_nonnegative [of p] by simp
  then show ?thesis by (simp add: word_uint_eq_iff)
qed

lemma adjust_pixel_overflow: "adjust_pixel 2147483647 1 = 0"
  by (simp add: adjust_pixel_def promote_def narrow_def word_sless_alt)

section \<open>Properties of the binary64 model\<close>

subsection \<open>Rounding to an integer\<close>

lemma round_ties_even_cases:
  "round_ties_even x = \<lfloor>x\<rfloor> \<or> round_ties_even x = \<lfloor>x\<rfloor> + 1"
  by (simp add: round_ties_even_def Let_def)

lemma round_ties_even_of_int: "round_ties_even (of_int n) = n"
  by (simp add: round_ties_even_def Let_def)

lemma round_ties_even_mono:
  assumes "x \<le> y"
  shows "round_ties_even x \<le> round_ties_even y"
proof (cases "\<lfloor>x\<rfloor> < \<lfloor>y\<rfloor>")
  case True
  have "round_ties_even x \<le> \<lfloor>x\<rfloor> + 1"
    using round_ties_even_cases [of x] by linarith
  moreover have "\<lfloor>y\<rfloor> \<le> round_ties_even y"
    using round_ties_even_cases [of y] by linarith
  ultimately show ?thesis using True by linarith
next
  case False
  with floor_mono [OF assms] have eq: "\<lfloor>x\<rfloor> = \<lfloor>y\<rfloor>" by simp
  then have "x - of_int \<lfloor>y\<rfloor> \<le> y - of_int \<lfloor>y\<rfloor>" using assms by simp
  then show ?thesis
    by (auto simp add: round_ties_even_def Let_def eq)
qed

lemma round_ties_even_near:
  "\<bar>of_int (round_ties_even x) - x\<bar> \<le> 1 / 2"
proof -
  have "of_int \<lfloor>x\<rfloor> \<le> x" "x < of_int \<lfloor>x\<rfloor> + 1" by linarith+
  then show ?thesis
    by (auto simp add: round_ties_even_def Let_def abs_le_iff)
qed

subsection \<open>The exponent\<close>

lemma two_powi_pos: "0 < (2 :: rat) powi e"
  by simp

lemma two_powi_less_cancel:
  assumes "(2 :: rat) powi m < 2 powi n"
  shows "m < n"
proof (rule ccontr)
  assume "\<not> m < n"
  then have "n \<le> m" by simp
  then have "(2 :: rat) powi n \<le> 2 powi m" by (intro power_int_increasing) simp_all
  with assms show False by simp
qed

lemma two_powi_nat: "0 \<le> k \<Longrightarrow> (2 :: rat) powi k = 2 ^ nat k"
  by (simp add: power_int_def)

lemma bitlen_powi_bounds:
  assumes "0 < p"
  shows "(2 :: rat) powi (bitlen p - 1) \<le> of_int p" and "of_int p < (2 :: rat) powi bitlen p"
proof -
  from bitlen_bounds [OF assms]
  have lo: "2 ^ nat (bitlen p - 1) \<le> p" and hi: "p < 2 ^ nat (bitlen p)" by simp_all
  have b1: "1 \<le> bitlen p" using assms bitlen_eq_zero_iff [of p] bitlen_nonneg [of p] by linarith
  from lo have "(of_int (2 ^ nat (bitlen p - 1)) :: rat) \<le> of_int p"
    by (simp only: of_int_le_iff)
  then show "(2 :: rat) powi (bitlen p - 1) \<le> of_int p"
    using b1 by (simp add: two_powi_nat)
  from hi have "(of_int p :: rat) < of_int (2 ^ nat (bitlen p))"
    by (simp only: of_int_less_iff)
  then show "of_int p < (2 :: rat) powi bitlen p"
    using b1 by (simp add: two_powi_nat)
qed

lemma binade_bounds:
  assumes "x \<noteq> 0"
  shows "2 powi binade x \<le> \<bar>x\<bar>" and "\<bar>x\<bar> < 2 powi (binade x + 1)"
proof -
  obtain p q where pq: "quotient_of \<bar>x\<bar> = (p, q)" by (cases "quotient_of \<bar>x\<bar>")
  then have q: "0 < q" by (rule quotient_of_denom_pos)
  from pq have x: "\<bar>x\<bar> = of_int p / of_int q" by (rule quotient_of_div)
  have "0 < \<bar>x\<bar>" using assms by simp
  with x q have p: "0 < p" by (simp add: zero_less_divide_iff)
  let ?e = "bitlen p - bitlen q"
  have qpos: "(0 :: rat) < of_int q" using q by simp
  have ppos: "(0 :: rat) < of_int p" using p by simp
  note P = bitlen_powi_bounds [OF p] and Q = bitlen_powi_bounds [OF q]
  have up: "\<bar>x\<bar> < 2 powi (?e + 1)"
  proof -
    have "of_int p < (2 :: rat) powi bitlen p" by (rule P(2))
    also have "\<dots> = 2 powi (?e + 1) * 2 powi (bitlen q - 1)"
      by (simp flip: power_int_add)
    also have "\<dots> \<le> 2 powi (?e + 1) * of_int q"
      using Q(1) by (intro mult_left_mono) simp_all
    finally show ?thesis using qpos by (simp add: x pos_divide_less_eq)
  qed
  have low: "2 powi (?e - 1) \<le> \<bar>x\<bar>"
  proof -
    have "2 powi (?e - 1) * of_int q \<le> 2 powi (?e - 1) * (2 :: rat) powi bitlen q"
      using Q(2) by (intro mult_left_mono) simp_all
    also have "\<dots> = 2 powi (bitlen p - 1)"
      by (simp flip: power_int_add)
    also have "\<dots> \<le> of_int p" by (rule P(1))
    finally show ?thesis using qpos by (simp add: x pos_le_divide_eq)
  qed
  have b: "binade x = (if 2 powi ?e \<le> \<bar>x\<bar> then ?e else ?e - 1)"
    by (simp add: binade_def pq Let_def)
  show "2 powi binade x \<le> \<bar>x\<bar>" using low by (simp add: b)
  show "\<bar>x\<bar> < 2 powi (binade x + 1)" using up by (auto simp add: b not_le)
qed

lemma binade_unique:
  assumes "2 powi e \<le> \<bar>x\<bar>" and "\<bar>x\<bar> < 2 powi (e + 1)"
  shows "binade x = e"
proof -
  have "0 < \<bar>x\<bar>" using assms(1) two_powi_pos [of e] by linarith
  then have x: "x \<noteq> 0" by simp
  note B = binade_bounds [OF x]
  have "(2 :: rat) powi e < 2 powi (binade x + 1)" using assms(1) B(2) by linarith
  then have "e < binade x + 1" by (rule two_powi_less_cancel)
  moreover have "(2 :: rat) powi binade x < 2 powi (e + 1)" using assms(2) B(1) by linarith
  then have "binade x < e + 1" by (rule two_powi_less_cancel)
  ultimately show ?thesis by simp
qed

subsection \<open>Rounding to a double\<close>

lemma round_double_nonzero:
  assumes "x \<noteq> 0"
  shows "round_double x =
    of_int (round_ties_even (x / 2 powi (binade x - 52))) * 2 powi (binade x - 52)"
  using assms by (simp add: round_double_def Let_def)

lemma round_double_zero: "round_double 0 = 0"
  by (simp add: round_double_def)

text \<open>An integer below \<open>2 ^ 53\<close> in magnitude is a double.\<close>

lemma round_double_of_int:
  assumes "\<bar>m\<bar> < 2 ^ 53"
  shows "round_double (of_int m) = of_int m"
proof (cases "m = 0")
  case True
  then show ?thesis by (simp add: round_double_zero)
next
  case False
  let ?x = "of_int m :: rat"
  let ?e = "binade ?x"
  have x: "?x \<noteq> 0" using False by simp
  note B = binade_bounds [OF x]
  have "\<bar>?x\<bar> < 2 powi 53"
  proof -
    have "(of_int \<bar>m\<bar> :: rat) < of_int (2 ^ 53)" using assms by (simp only: of_int_less_iff)
    then show ?thesis by simp
  qed
  with B(1) have "(2 :: rat) powi ?e < 2 powi 53" by linarith
  then have "?e < 53" by (rule two_powi_less_cancel)
  then have k: "0 \<le> 52 - ?e" by simp
  have "?x / 2 powi (?e - 52) = ?x * 2 powi (52 - ?e)"
    by (simp add: power_int_diff)
  also have "\<dots> = of_int (m * 2 ^ nat (52 - ?e))"
    using k by (simp add: two_powi_nat)
  finally have "round_ties_even (?x / 2 powi (?e - 52)) = m * 2 ^ nat (52 - ?e)"
    by (simp only: round_ties_even_of_int)
  then have "round_double ?x = of_int (m * 2 ^ nat (52 - ?e)) * 2 powi (?e - 52)"
    by (simp add: round_double_nonzero [OF x])
  also have "\<dots> = ?x * (2 powi (52 - ?e) * 2 powi (?e - 52))"
    using k by (simp add: two_powi_nat)
  also have "2 powi (52 - ?e) * 2 powi (?e - 52) = (1 :: rat)"
    by (simp flip: power_int_add)
  finally show ?thesis by simp
qed

lemma two_powi_add: "(2 :: rat) powi m * 2 powi n = 2 powi (m + n)"
  by (simp add: power_int_add)

text \<open>A positive number is rounded within its binade.\<close>

lemma round_double_binade:
  assumes "0 < x"
  shows "2 powi binade x \<le> round_double x" and "round_double x \<le> 2 powi (binade x + 1)"
proof -
  let ?e = "binade x"
  let ?u = "(2 :: rat) powi (?e - 52)"
  have x: "x \<noteq> 0" using assms by simp
  note B = binade_bounds [OF x]
  have u: "0 < ?u" by simp
  have lo: "2 ^ 52 * ?u = 2 powi ?e"
    using two_powi_add [of 52 "?e - 52"] by simp
  have hi: "2 ^ 53 * ?u = 2 powi (?e + 1)"
    using two_powi_add [of 53 "?e - 52"] by (simp add: add.commute)
  have "of_int (2 ^ 52) \<le> x / ?u"
    using B(1) assms u lo by (simp add: pos_le_divide_eq)
  then have "round_ties_even (of_int (2 ^ 52)) \<le> round_ties_even (x / ?u)"
    by (rule round_ties_even_mono)
  then have "(of_int (2 ^ 52) :: rat) \<le> of_int (round_ties_even (x / ?u))"
    by (simp only: round_ties_even_of_int of_int_le_iff)
  then have "of_int (2 ^ 52) * ?u \<le> of_int (round_ties_even (x / ?u)) * ?u"
    using u by (intro mult_right_mono) simp_all
  moreover have "of_int (2 ^ 52) * ?u = 2 powi ?e" using lo by simp
  moreover have "of_int (round_ties_even (x / ?u)) * ?u = round_double x"
    by (simp only: round_double_nonzero [OF x])
  ultimately show "2 powi ?e \<le> round_double x" by (simp only:)
  have "x / ?u \<le> of_int (2 ^ 53)"
    using B(2) assms u hi by (simp add: pos_divide_le_eq)
  then have "round_ties_even (x / ?u) \<le> round_ties_even (of_int (2 ^ 53))"
    by (rule round_ties_even_mono)
  then have "(of_int (round_ties_even (x / ?u)) :: rat) \<le> of_int (2 ^ 53)"
    by (simp only: round_ties_even_of_int of_int_le_iff)
  then have "of_int (round_ties_even (x / ?u)) * ?u \<le> of_int (2 ^ 53) * ?u"
    using u by (intro mult_right_mono) simp_all
  moreover have "of_int (2 ^ 53) * ?u = 2 powi (?e + 1)" using hi by simp
  moreover have "of_int (round_ties_even (x / ?u)) * ?u = round_double x"
    by (simp only: round_double_nonzero [OF x])
  ultimately show "round_double x \<le> 2 powi (?e + 1)" by (simp only:)
qed

lemma round_double_nonneg:
  assumes "0 \<le> x"
  shows "0 \<le> round_double x"
proof (cases "x = 0")
  case True
  then show ?thesis by (simp add: round_double_zero)
next
  case False
  with assms have "0 < x" by simp
  from round_double_binade(1) [OF this] two_powi_pos [of "binade x"]
  show ?thesis by linarith
qed

lemma round_double_mono:
  assumes "0 \<le> x" and "x \<le> y"
  shows "round_double x \<le> round_double y"
proof (cases "x = 0")
  case True
  with assms show ?thesis by (simp add: round_double_zero round_double_nonneg)
next
  case False
  with assms have x: "0 < x" and y: "0 < y" by simp_all
  note Bx = binade_bounds [of x] and By = binade_bounds [of y]
  have "(2 :: rat) powi binade x < 2 powi (binade y + 1)"
    using Bx(1) By(2) x y assms(2) by simp
  then have le: "binade x < binade y + 1" by (rule two_powi_less_cancel)
  show ?thesis
  proof (cases "binade x = binade y")
    case True
    let ?u = "(2 :: rat) powi (binade y - 52)"
    have "x / ?u \<le> y / ?u" using assms(2) by (simp add: divide_right_mono)
    then have "(of_int (round_ties_even (x / ?u)) :: rat) \<le> of_int (round_ties_even (y / ?u))"
      by (simp only: of_int_le_iff round_ties_even_mono)
    then have "of_int (round_ties_even (x / ?u)) * ?u \<le> of_int (round_ties_even (y / ?u)) * ?u"
      by (intro mult_right_mono) simp_all
    then show ?thesis
      using x y True by (simp add: round_double_nonzero)
  next
    case False
    with le have "binade x + 1 \<le> binade y" by simp
    then have "(2 :: rat) powi (binade x + 1) \<le> 2 powi binade y"
      by (intro power_int_increasing) simp_all
    with round_double_binade(2) [OF x] round_double_binade(1) [OF y]
    show ?thesis by linarith
  qed
qed

text \<open>The rounding error is at most half a unit in the last place.\<close>

lemma round_double_error:
  assumes "x \<noteq> 0"
  shows "\<bar>round_double x - x\<bar> \<le> 2 powi (binade x - 53)"
    and "\<bar>round_double x - x\<bar> \<le> \<bar>x\<bar> / 2 ^ 53"
proof -
  let ?u = "(2 :: rat) powi (binade x - 52)"
  have u: "0 < ?u" by simp
  have "round_double x - x = (of_int (round_ties_even (x / ?u)) - x / ?u) * ?u"
    by (simp add: round_double_nonzero [OF assms] algebra_simps)
  then have "\<bar>round_double x - x\<bar> = \<bar>of_int (round_ties_even (x / ?u)) - x / ?u\<bar> * ?u"
    by (simp add: abs_mult)
  also have "\<dots> \<le> 1 / 2 * ?u"
    using round_ties_even_near [of "x / ?u"] by (intro mult_right_mono) simp_all
  also have "1 / 2 * ?u = 2 powi (binade x - 53)"
    using two_powi_add [of "binade x - 53" 1] by simp
  finally show 1: "\<bar>round_double x - x\<bar> \<le> 2 powi (binade x - 53)" .
  have "(2 :: rat) powi (binade x - 53) = 2 powi binade x / 2 ^ 53"
    using two_powi_add [of "binade x - 53" 53] by simp
  also have "\<dots> \<le> \<bar>x\<bar> / 2 ^ 53"
    using binade_bounds(1) [OF assms] by (simp add: divide_right_mono)
  finally show "\<bar>round_double x - x\<bar> \<le> \<bar>x\<bar> / 2 ^ 53" using 1 by linarith
qed

subsection \<open>The weighted sum of a pixel\<close>

lemma double_of_uchar_exact: "double_of_uchar c = of_int (uint c)"
proof -
  have "\<bar>uint c\<bar> < 2 ^ 53" using uint_uchar_less [of c] uint_nonnegative [of c] by simp
  then show ?thesis unfolding double_of_uchar_def by (rule round_double_of_int)
qed

lemma double_of_uchar_range: "0 \<le> double_of_uchar c" "double_of_uchar c \<le> 255"
proof -
  have "uint c \<le> 255" using uint_uchar_less [of c] by simp
  then have "(of_int (uint c) :: rat) \<le> of_int 255"
    by (simp only: of_int_le_iff)
  then show "double_of_uchar c \<le> 255" by (simp only: double_of_uchar_exact of_int_numeral)
  have "(of_int 0 :: rat) \<le> of_int (uint c)"
    using uint_nonnegative [of c] by (simp only: of_int_le_iff)
  then show "0 \<le> double_of_uchar c" by (simp only: double_of_uchar_exact of_int_0)
qed

lemma literals_nonneg: "0 \<le> lit_0299" "0 \<le> lit_0587" "0 \<le> lit_0114"
  by (simp_all add: lit_0299_def lit_0587_def lit_0114_def round_double_nonneg)

lemma dmul_nonneg: "0 \<le> x \<Longrightarrow> 0 \<le> y \<Longrightarrow> 0 \<le> dmul x y"
  by (simp add: dmul_def round_double_nonneg)

lemma dadd_nonneg: "0 \<le> x \<Longrightarrow> 0 \<le> y \<Longrightarrow> 0 \<le> dadd x y"
  by (simp add: dadd_def round_double_nonneg)

lemma dmul_mono: "0 \<le> k \<Longrightarrow> 0 \<le> x \<Longrightarrow> x \<le> y \<Longrightarrow> dmul k x \<le> dmul k y"
  unfolding dmul_def by (intro round_double_mono mult_nonneg_nonneg mult_left_mono)

lemma dadd_mono:
  "0 \<le> x \<Longrightarrow> x \<le> x' \<Longrightarrow> 0 \<le> y \<Longrightarrow> y \<le> y' \<Longrightarrow> dadd x y \<le> dadd x' y'"
  unfolding dadd_def by (intro round_double_mono add_nonneg_nonneg add_mono)

lemma gray_value_white: "gray_value 255 255 255 = 255"
  by code_simp

text \<open>
  The white pixel step by step: the doubles of the three products (near 76.245, 149.685
  and 29.07), of the first sum (near 225.93) and of the second sum, which is 255.
\<close>

lemma white_steps:
  "dmul lit_0299 255 = 5365264899825991 / 70368744177664"
  "dmul lit_0587 255 = 2633286368058409 / 17592186044416"
  "dmul lit_0114 255 = 4091238786489385 / 140737488355328"
  "dadd (5365264899825991 / 70368744177664) (2633286368058409 / 17592186044416) =
     3974602593014907 / 17592186044416"
  "dadd (3974602593014907 / 17592186044416) (4091238786489385 / 140737488355328) = 255"
  by code_simp+

text \<open>
  The same expression with the second and the third product fused into the additions
  (one rounding for each multiply-add, as a compiler that contracts the expression
  computes it) stays below 255 for a white pixel. This is not what the model of the
  program computes; it shows where a gray byte 254 can come from.
\<close>

lemma white_contracted:
  "\<lfloor>round_double (round_double (dmul lit_0299 255 + lit_0587 * 255) + lit_0114 * 255)\<rfloor> = 254"
  by code_simp

lemma gray_value_nonneg: "0 \<le> gray_value rv gv bv"
  unfolding gray_value_def
  by (intro dadd_nonneg dmul_nonneg literals_nonneg double_of_uchar_range)

lemma gray_value_le_255: "gray_value rv gv bv \<le> 255"
proof -
  have w: "double_of_uchar 255 = 255" by (simp add: double_of_uchar_exact)
  have "gray_value rv gv bv \<le>
      dadd (dadd (dmul lit_0299 255) (dmul lit_0587 255)) (dmul lit_0114 255)"
    unfolding gray_value_def
    by (intro dadd_mono dmul_mono dadd_nonneg dmul_nonneg literals_nonneg double_of_uchar_range)
  also have "\<dots> = gray_value 255 255 255" by (simp add: gray_value_def w)
  finally show ?thesis by (simp only: gray_value_white)
qed

lemma uchar_of_double_gray_value:
  "uchar_of_double (gray_value rv gv bv) = Inr (word_of_int \<lfloor>gray_value rv gv bv\<rfloor>)"
proof -
  let ?v = "gray_value rv gv bv"
  have "0 \<le> \<lfloor>?v\<rfloor>" using gray_value_nonneg [of rv gv bv] by simp
  moreover have "\<lfloor>?v\<rfloor> \<le> 255" using gray_value_le_255 [of rv gv bv] by (simp add: floor_le_iff)
  ultimately show ?thesis
    using gray_value_nonneg [of rv gv bv] by (simp add: uchar_of_double_def)
qed

lemma uint_gray_byte:
  "uint (word_of_int \<lfloor>gray_value rv gv bv\<rfloor> :: uchar) = \<lfloor>gray_value rv gv bv\<rfloor>"
proof -
  let ?v = "gray_value rv gv bv"
  have "0 \<le> \<lfloor>?v\<rfloor>" using gray_value_nonneg [of rv gv bv] by simp
  moreover have "\<lfloor>?v\<rfloor> < 256" using gray_value_le_255 [of rv gv bv] by (simp add: floor_less_iff)
  ultimately show ?thesis by (simp add: uint_word_of_int)
qed

section \<open>The kernels in closed form\<close>

subsection \<open>Lists updated from the front\<close>

lemma update_mapped_prefix:
  assumes "j < length xs"
  shows "(map f (take j xs) @ drop j xs)[j := f (xs ! j)] = map f (take (Suc j) xs) @ drop (Suc j) xs"
proof -
  have "drop j xs = xs ! j # drop (Suc j) xs"
    using assms by (simp add: Cons_nth_drop_Suc)
  moreover have "length (map f (take j xs)) = j"
    using assms by simp
  ultimately have "(map f (take j xs) @ drop j xs)[j := f (xs ! j)] =
      map f (take j xs) @ (f (xs ! j) # drop (Suc j) xs)"
    by (simp add: list_update_append)
  also have "\<dots> = map f (take (Suc j) xs) @ drop (Suc j) xs"
    using assms by (simp add: take_Suc_conv_app_nth)
  finally show ?thesis .
qed

lemma nth_mapped_prefix:
  assumes "j < length xs"
  shows "(map f (take j xs) @ drop j xs) ! j = xs ! j"
  using assms by (simp add: nth_append)

lemma update_generated_prefix:
  assumes "j < length xs"
  shows "(map h [0..<j] @ drop j xs)[j := h j] = map h [0..<Suc j] @ drop (Suc j) xs"
proof -
  have "drop j xs = xs ! j # drop (Suc j) xs"
    using assms by (simp add: Cons_nth_drop_Suc)
  then have "(map h [0..<j] @ drop j xs)[j := h j] = map h [0..<j] @ (h j # drop (Suc j) xs)"
    by (simp add: list_update_append)
  then show ?thesis by simp
qed

subsection \<open>The loops that map the gray channel, and the generator\<close>

lemma gray_map_loop:
  assumes body: "\<And>i t. body i t =
      (if i < length (gray t) then Inr (t\<lparr>gray := (gray t)[i := f (gray t ! i)]\<rparr>)
       else Inl OutOfBounds)"
    and n: "n \<le> length (gray img)"
  shows "for_loop 0 n body img = Inr (img\<lparr>gray := map f (take n (gray img)) @ drop n (gray img)\<rparr>)"
proof -
  let ?I = "\<lambda>j t. t = img\<lparr>gray := map f (take j (gray img)) @ drop j (gray img)\<rparr>"
  have "\<exists>s'. for_loop 0 n body img = Inr s' \<and> ?I n s'"
  proof (rule for_loop_invariant [where I = ?I])
    show "?I 0 img" by simp
    show "0 \<le> n" by simp
    fix j t
    assume j: "j < n" and t: "?I j t"
    from j n have jl: "j < length (gray img)" by simp
    have "body j t = Inr (t\<lparr>gray := (gray t)[j := f (gray t ! j)]\<rparr>)"
      using jl t by (simp add: body)
    moreover have "t\<lparr>gray := (gray t)[j := f (gray t ! j)]\<rparr> =
        img\<lparr>gray := map f (take (Suc j) (gray img)) @ drop (Suc j) (gray img)\<rparr>"
      using jl t by (simp add: nth_mapped_prefix update_mapped_prefix)
    ultimately show "\<exists>t'. body j t = Inr t' \<and> ?I (Suc j) t'" by simp
  qed
  then show ?thesis by auto
qed

lemma adjustBrightness_wf:
  assumes "wf_Image img"
  shows "adjustBrightness img offset = Inr (img\<lparr>gray := map (adjust_pixel offset) (gray img)\<rparr>)"
proof -
  have "pixels img = length (gray img)" using assms by (simp add: wf_Image_def)
  then show ?thesis
    using gray_map_loop [of "adjust_body offset" "adjust_pixel offset" "length (gray img)" img]
    by (simp add: adjustBrightness_def adjust_body_def)
qed

lemma applyThreshold_wf:
  assumes "wf_Image img"
  shows "applyThreshold img t = Inr (img\<lparr>gray := map (threshold_pixel t) (gray img)\<rparr>)"
proof -
  have "pixels img = length (gray img)" using assms by (simp add: wf_Image_def)
  then show ?thesis
    using gray_map_loop [of "threshold_body t" "threshold_pixel t" "length (gray img)" img]
    by (simp add: applyThreshold_def threshold_body_def)
qed

lemma generateImageData_wf:
  assumes "wf_Image img"
  shows "generateImageData img = Inr (img
      \<lparr>r := map (\<lambda>i. narrow (c_rem (of_nat i * 123) 256)) [0..<pixels img],
       g := map (\<lambda>i. narrow (c_rem (of_nat i * 456) 256)) [0..<pixels img],
       b := map (\<lambda>i. narrow (c_rem (of_nat i * 789) 256)) [0..<pixels img]\<rparr>)"
proof -
  let ?hr = "\<lambda>i. narrow (c_rem (of_nat i * 123) 256)"
  let ?hg = "\<lambda>i. narrow (c_rem (of_nat i * 456) 256)"
  let ?hb = "\<lambda>i. narrow (c_rem (of_nat i * 789) 256)"
  let ?n = "pixels img"
  let ?I = "\<lambda>j t. t = img\<lparr>r := map ?hr [0..<j] @ drop j (r img),
                          g := map ?hg [0..<j] @ drop j (g img),
                          b := map ?hb [0..<j] @ drop j (b img)\<rparr>"
  from assms have len: "length (r img) = ?n" "length (g img) = ?n" "length (b img) = ?n"
    by (simp_all add: wf_Image_def)
  have "\<exists>s'. for_loop 0 ?n generate_body img = Inr s' \<and> ?I ?n s'"
  proof (rule for_loop_invariant [where I = ?I])
    show "?I 0 img" by simp
    show "0 \<le> ?n" by simp
    fix j t
    assume j: "j < ?n" and t: "?I j t"
    have "generate_body j t = Inr (t\<lparr>r := (r t)[j := ?hr j], g := (g t)[j := ?hg j],
        b := (b t)[j := ?hb j]\<rparr>)"
      using j t len by (simp add: generate_body_def)
    moreover have "t\<lparr>r := (r t)[j := ?hr j], g := (g t)[j := ?hg j], b := (b t)[j := ?hb j]\<rparr> =
        img\<lparr>r := map ?hr [0..<Suc j] @ drop (Suc j) (r img),
            g := map ?hg [0..<Suc j] @ drop (Suc j) (g img),
            b := map ?hb [0..<Suc j] @ drop (Suc j) (b img)\<rparr>"
      using j t len update_generated_prefix [of j "r img" ?hr]
        update_generated_prefix [of j "g img" ?hg] update_generated_prefix [of j "b img" ?hb]
      by (simp del: upt_Suc)
    ultimately show "\<exists>t'. generate_body j t = Inr t' \<and> ?I (Suc j) t'" by simp
  qed
  then show ?thesis using len by (auto simp add: generateImageData_def)
qed

subsection \<open>Repeated and composed calls\<close>

lemma wf_Image_gray_update:
  assumes "wf_Image img" and "length xs = length (gray img)"
  shows "wf_Image (img\<lparr>gray := xs\<rparr>)"
  using assms by (simp add: wf_Image_def size_of_def pixels_def)

lemma threshold_pixel_twice: "threshold_pixel t (threshold_pixel t p) = threshold_pixel t p"
proof (cases "t \<le> p")
  case True
  moreover have "t \<le> 255" using uint_uchar_less [of t] by (simp add: word_le_def)
  ultimately show ?thesis by (simp add: threshold_pixel_def)
next
  case False
  then have "\<not> t \<le> 0" using word_zero_le [of p] by auto
  with False show ?thesis by (simp add: threshold_pixel_def)
qed

lemma adjustBrightness_zero:
  assumes "wf_Image img"
  shows "adjustBrightness img 0 = Inr img"
proof -
  have "adjustBrightness img 0 = Inr (img\<lparr>gray := map (adjust_pixel 0) (gray img)\<rparr>)"
    by (rule adjustBrightness_wf [OF assms])
  moreover have "map (adjust_pixel 0) (gray img) = gray img"
    by (simp add: adjust_pixel_zero map_idI)
  ultimately show ?thesis by simp
qed

lemma replicate_zero_iff:
  assumes "length xs = n"
  shows "replicate n 0 = xs \<longleftrightarrow> (\<forall>p \<in> set xs. p = (0 :: uchar))"
proof
  assume "replicate n 0 = xs"
  then have "set xs = set (replicate n (0 :: uchar))" by simp
  then show "\<forall>p \<in> set xs. p = 0" by simp
next
  assume "\<forall>p \<in> set xs. p = 0"
  then have "xs = replicate n 0" using assms by (intro replicate_eqI) simp_all
  then show "replicate n 0 = xs" by simp
qed

lemma adjustBrightness_up_down:
  assumes "wf_Image img"
  shows "\<exists>img1 img2. adjustBrightness img 1000 = Inr img1 \<and>
       gray img1 = replicate (pixels img) 255 \<and>
       adjustBrightness img1 (- 1000) = Inr img2 \<and>
       gray img2 = replicate (pixels img) 0"
proof -
  let ?n = "pixels img"
  let ?img1 = "img\<lparr>gray := map (adjust_pixel 1000) (gray img)\<rparr>"
  let ?img2 = "?img1\<lparr>gray := map (adjust_pixel (- 1000)) (gray ?img1)\<rparr>"
  have n: "length (gray img) = ?n" using assms by (simp add: wf_Image_def)
  have up: "adjust_pixel 1000 = (\<lambda>p. 255)"
    by (rule ext) (rule adjust_pixel_plus_1000)
  have down: "adjust_pixel (- 1000) = (\<lambda>p. 0)"
    by (rule ext) (rule adjust_pixel_minus_1000)
  have 1: "adjustBrightness img 1000 = Inr ?img1" by (rule adjustBrightness_wf [OF assms])
  have g1: "gray ?img1 = replicate ?n 255"
    using n by (simp add: up map_replicate_const)
  have "wf_Image ?img1" using assms by (simp add: wf_Image_gray_update)
  then have 2: "adjustBrightness ?img1 (- 1000) = Inr ?img2" by (rule adjustBrightness_wf)
  have g2: "gray ?img2 = replicate ?n 0"
    using n by (simp add: down map_replicate_const)
  from 1 g1 2 g2 show ?thesis by blast
qed

lemma wf_Image_one_pixel: "wf_Image \<lparr>width = 1, height = 1, r = [0], g = [0], b = [0], gray = [p]\<rparr>"
  by (simp add: wf_Image_def pixels_def size_of_def)

lemma pixels_one_pixel: "pixels \<lparr>width = 1, height = 1, r = [0], g = [0], b = [0], gray = [p]\<rparr> = 1"
  by (simp add: pixels_def size_of_def)

lemma adjustBrightness_clamps:
  assumes "wf_Image img" and "sint offset \<le> 2147483392"
  shows "\<exists>img'. adjustBrightness img offset = Inr img' \<and> length (gray img') = pixels img \<and>
    (\<forall>i < pixels img.
       uint (gray img' ! i) = max 0 (min 255 (uint (gray img ! i) + sint offset)))"
proof -
  have n: "length (gray img) = pixels img" using assms(1) by (simp add: wf_Image_def)
  have "uint (adjust_pixel offset p) = max 0 (min 255 (uint p + sint offset))" for p
    using assms(2) uint_uchar_less [of p] by (intro adjust_pixel_in_range) linarith
  then show ?thesis using n by (simp add: adjustBrightness_wf [OF assms(1)])
qed

subsection \<open>The grayscale loop\<close>

lemma convertToGrayscale_wf:
  assumes "wf_Image img"
  shows "convertToGrayscale img = Inr (img
      \<lparr>gray := map (\<lambda>i. word_of_int \<lfloor>gray_value (r img ! i) (g img ! i) (b img ! i)\<rfloor>)
                 [0..<pixels img]\<rparr>)"
proof -
  let ?h = "\<lambda>i. word_of_int \<lfloor>gray_value (r img ! i) (g img ! i) (b img ! i)\<rfloor> :: uchar"
  let ?n = "pixels img"
  let ?I = "\<lambda>j t. t = img\<lparr>gray := map ?h [0..<j] @ drop j (gray img)\<rparr>"
  from assms have len: "length (r img) = ?n" "length (g img) = ?n" "length (b img) = ?n"
      "length (gray img) = ?n"
    by (simp_all add: wf_Image_def)
  have "\<exists>s'. for_loop 0 ?n convert_body img = Inr s' \<and> ?I ?n s'"
  proof (rule for_loop_invariant [where I = ?I])
    show "?I 0 img" by simp
    show "0 \<le> ?n" by simp
    fix j t
    assume j: "j < ?n" and t: "?I j t"
    have "convert_body j t = Inr (t\<lparr>gray := (gray t)[j := ?h j]\<rparr>)"
      using j t len by (simp add: convert_body_def uchar_of_double_gray_value)
    moreover have "t\<lparr>gray := (gray t)[j := ?h j]\<rparr> =
        img\<lparr>gray := map ?h [0..<Suc j] @ drop (Suc j) (gray img)\<rparr>"
      using j t len update_generated_prefix [of j "gray img" ?h]
      by (simp del: upt_Suc)
    ultimately show "\<exists>t'. convert_body j t = Inr t' \<and> ?I (Suc j) t'" by simp
  qed
  then show ?thesis using len by (auto simp add: convertToGrayscale_def)
qed

lemma gray_value_samples: "\<lfloor>gray_value 1 1 1\<rfloor> = 0" "\<lfloor>gray_value 123 200 21\<rfloor> = 156"
  by code_simp+

subsection \<open>The summation loop and the division\<close>

lemma sum_loop:
  assumes "n \<le> length (gray img)"
  shows "for_loop 0 n (sum_body img) 0 = Inr (of_nat (sum_list (map unat (take n (gray img)))))"
proof -
  let ?I = "\<lambda>j s. s = (of_nat (sum_list (map unat (take j (gray img)))) :: longlong)"
  have "\<exists>s'. for_loop 0 n (sum_body img) 0 = Inr s' \<and> ?I n s'"
  proof (rule for_loop_invariant [where I = ?I])
    show "?I 0 0" by simp
    show "0 \<le> n" by simp
    fix j t
    assume j: "j < n" and t: "?I j t"
    from j assms have jl: "j < length (gray img)" by simp
    then have "sum_body img j t = Inr (t + ucast (gray img ! j))"
      by (simp add: sum_body_def)
    moreover have "t + ucast (gray img ! j) =
        of_nat (sum_list (map unat (take (Suc j) (gray img))))"
      using jl t by (simp add: take_Suc_conv_app_nth)
    ultimately show "\<exists>t'. sum_body img j t = Inr t' \<and> ?I (Suc j) t'" by simp
  qed
  then show ?thesis by auto
qed

lemma sum_list_unat_le: "sum_list (map unat (xs :: uchar list)) \<le> 255 * length xs"
proof (induction xs)
  case Nil
  then show ?case by simp
next
  case (Cons x xs)
  have "unat x < 2 ^ LENGTH(8)" by (rule unsigned_less)
  then have "unat x \<le> 255" by simp
  with Cons show ?case by simp
qed

lemma pixels_less: "pixels img < 2147483648"
proof -
  have "sint (size_of img) < 2147483648" using sint_cint_range [of "size_of img"] by simp
  then show ?thesis by (simp add: pixels_def)
qed

lemma sint_longlong_of_nat:
  assumes "S < 2 ^ 53"
  shows "sint (of_nat S :: longlong) = int S"
proof -
  have "int S < 2 ^ 53" using assms by (metis of_nat_less_iff of_nat_numeral of_nat_power)
  then have "int S < 2 ^ 63" by simp
  moreover have "- (2 ^ 63) \<le> int S" by simp
  ultimately have "signed_take_bit 63 (int S) = int S"
    by (intro signed_take_bit_int_eq_self)
  then show ?thesis by (simp add: signed_of_nat)
qed

lemma double_of_longlong_exact:
  assumes "S < 2 ^ 53"
  shows "double_of_longlong (of_nat S) = of_nat S"
proof -
  have "\<bar>int S\<bar> < 2 ^ 53" using assms by (metis abs_of_nat of_nat_less_iff of_nat_numeral of_nat_power)
  then have "round_double (of_int (int S)) = of_int (int S)" by (rule round_double_of_int)
  then show ?thesis by (simp add: double_of_longlong_def sint_longlong_of_nat [OF assms])
qed

lemma double_of_int_size:
  assumes "wf_Image img"
  shows "double_of_int (size_of img) = of_nat (pixels img)"
proof -
  let ?s = "sint (size_of img)"
  have nonneg: "0 \<le> ?s" using assms by (simp add: wf_Image_def)
  have "?s < 2147483648" using sint_cint_range [of "size_of img"] by simp
  with nonneg have "\<bar>?s\<bar> < 2 ^ 53" by simp
  then have "round_double (of_int ?s) = of_int ?s" by (rule round_double_of_int)
  moreover have "(of_int ?s :: rat) = of_nat (pixels img)"
    using nonneg by (simp add: pixels_def)
  ultimately show ?thesis by (simp add: double_of_int_def)
qed

lemma calculateAverageGray_wf:
  assumes "wf_Image img"
  shows "calculateAverageGray img =
    Inr (ddiv (of_nat (sum_list (map unat (gray img)))) (of_nat (pixels img)))"
proof -
  let ?S = "sum_list (map unat (gray img))"
  have n: "length (gray img) = pixels img" using assms by (simp add: wf_Image_def)
  have "?S \<le> 255 * pixels img" using sum_list_unat_le [of "gray img"] n by simp
  also have "\<dots> < 255 * 2147483648" using pixels_less [of img] by simp
  finally have S: "?S < 2 ^ 53" by simp
  have "for_loop 0 (pixels img) (sum_body img) 0 = Inr (of_nat ?S)"
    using sum_loop [of "pixels img" img] n by simp
  then show ?thesis
    by (simp add: calculateAverageGray_def double_of_longlong_exact [OF S]
        double_of_int_size [OF assms])
qed

subsection \<open>The constructor and the calls keep the invariant\<close>

lemma wf_Image_rgb_update:
  assumes "wf_Image img" and "length xs = pixels img" and "length ys = pixels img"
    and "length zs = pixels img"
  shows "wf_Image (img\<lparr>r := xs, g := ys, b := zs\<rparr>)"
  using assms by (simp add: wf_Image_def size_of_def pixels_def)

lemma new_Image_wf:
  assumes "new_Image w h = Inr img"
  shows "wf_Image img \<and> width img = w \<and> height img = h"
proof (cases "sint (w * h) < 0")
  case True
  with assms show ?thesis by (simp add: new_Image_def)
next
  case False
  with assms have "img = \<lparr>width = w, height = h,
      r = replicate (nat (sint (w * h))) 0, g = replicate (nat (sint (w * h))) 0,
      b = replicate (nat (sint (w * h))) 0, gray = replicate (nat (sint (w * h))) 0\<rparr>"
    by (simp add: new_Image_def Let_def)
  with False show ?thesis by (simp add: wf_Image_def size_of_def pixels_def)
qed

lemma call_wf:
  assumes "wf_Image img"
  shows "\<exists>img' out. call op img = Inr (img', out) \<and> wf_Image img' \<and>
    width img' = width img \<and> height img' = height img"
proof (cases op)
  case Generate
  have "wf_Image (img
      \<lparr>r := map (\<lambda>i. narrow (c_rem (of_nat i * 123) 256)) [0..<pixels img],
       g := map (\<lambda>i. narrow (c_rem (of_nat i * 456) 256)) [0..<pixels img],
       b := map (\<lambda>i. narrow (c_rem (of_nat i * 789) 256)) [0..<pixels img]\<rparr>)"
    using assms by (intro wf_Image_rgb_update) simp_all
  then show ?thesis using Generate by (simp add: generateImageData_wf [OF assms])
next
  case Convert
  have "length (gray img) = pixels img" using assms by (simp add: wf_Image_def)
  then have "wf_Image (img
      \<lparr>gray := map (\<lambda>i. word_of_int \<lfloor>gray_value (r img ! i) (g img ! i) (b img ! i)\<rfloor>)
                 [0..<pixels img]\<rparr>)"
    using assms by (intro wf_Image_gray_update) simp_all
  then show ?thesis using Convert by (simp add: convertToGrayscale_wf [OF assms])
next
  case Average
  then show ?thesis using assms by (simp add: calculateAverageGray_wf [OF assms])
next
  case (Adjust offset)
  have "wf_Image (img\<lparr>gray := map (adjust_pixel offset) (gray img)\<rparr>)"
    using assms by (intro wf_Image_gray_update) simp_all
  then show ?thesis using Adjust by (simp add: adjustBrightness_wf [OF assms])
next
  case (Threshold t)
  have "wf_Image (img\<lparr>gray := map (threshold_pixel t) (gray img)\<rparr>)"
    using assms by (intro wf_Image_gray_update) simp_all
  then show ?thesis using Threshold by (simp add: applyThreshold_wf [OF assms])
qed

subsection \<open>The invariant with the product in the integers\<close>

lemma sint_product_fits:
  assumes "- 2147483648 \<le> sint w * sint h" and "sint w * sint h < 2147483648"
  shows "sint (w * h :: cint) = sint w * sint h"
proof -
  have "- (2 ^ 31) \<le> sint w * sint h" using assms(1) by simp
  moreover have "sint w * sint h < 2 ^ 31" using assms(2) by simp
  ultimately have "signed_take_bit 31 (sint w * sint h) = sint w * sint h"
    by (rule signed_take_bit_int_eq_self)
  then show ?thesis by (simp add: sint_word_ariths)
qed

lemma channels_match_iff_wf:
  assumes "- 2147483648 \<le> sint (width img) * sint (height img)"
    and "sint (width img) * sint (height img) < 2147483648"
  shows "channels_match img \<longleftrightarrow> wf_Image img"
proof -
  have s: "sint (size_of img) = sint (width img) * sint (height img)"
    unfolding size_of_def using assms by (rule sint_product_fits)
  have len: "length xs = nat (sint (size_of img)) \<longleftrightarrow> int (length xs) = sint (size_of img)"
    if "0 \<le> sint (size_of img)" for xs :: "uchar list"
    using that by linarith
  show ?thesis
  proof
    assume c: "channels_match img"
    then have "int (length (r img)) = sint (size_of img)"
      by (simp only: channels_match_def s)
    then have nonneg: "0 \<le> sint (size_of img)" by linarith
    from c show "wf_Image img"
      unfolding wf_Image_def pixels_def channels_match_def s [symmetric] len [OF nonneg]
      using nonneg by simp
  next
    assume wf: "wf_Image img"
    then have nonneg: "0 \<le> sint (size_of img)" by (simp add: wf_Image_def)
    from wf show "channels_match img"
      unfolding wf_Image_def pixels_def channels_match_def s [symmetric] len [OF nonneg]
      by simp
  qed
qed

lemma new_Image_channels_match:
  assumes "new_Image w h = Inr img"
    and "- 2147483648 \<le> sint w * sint h" and "sint w * sint h < 2147483648"
  shows "channels_match img \<and> width img = w \<and> height img = h"
proof -
  from new_Image_wf [OF assms(1)]
  have wf: "wf_Image img" and w: "width img = w" and h: "height img = h" by simp_all
  from assms(2,3) w h have "channels_match img \<longleftrightarrow> wf_Image img"
    by (intro channels_match_iff_wf) simp_all
  with wf w h show ?thesis by simp
qed

lemma call_channels_match:
  assumes "channels_match img"
    and "sint (width img) * sint (height img) < 2147483648"
  shows "\<exists>img' out. call op img = Inr (img', out) \<and> channels_match img' \<and>
    width img' = width img \<and> height img' = height img"
proof -
  from assms(1) have "int (length (r img)) = sint (width img) * sint (height img)"
    by (simp add: channels_match_def)
  then have "0 \<le> sint (width img) * sint (height img)" by linarith
  then have lo: "- 2147483648 \<le> sint (width img) * sint (height img)" by linarith
  from assms(1) have wf: "wf_Image img"
    using channels_match_iff_wf [OF lo assms(2)] by simp
  from call_wf [OF wf, of op]
  obtain img' out where c: "call op img = Inr (img', out)" and wf': "wf_Image img'"
    and w: "width img' = width img" and h: "height img' = height img" by blast
  from lo assms(2) w h have "channels_match img' \<longleftrightarrow> wf_Image img'"
    by (intro channels_match_iff_wf) simp_all
  with wf' have "channels_match img'" by simp
  with c w h show ?thesis by blast
qed

text \<open>Two more products that do not fit: one wraps to 2, one to a negative size.\<close>

lemma new_Image_overflow_small:
  "new_Image 3 1431655766 =
     Inr \<lparr>width = 3, height = 1431655766, r = [0, 0], g = [0, 0], b = [0, 0], gray = [0, 0]\<rparr>"
  by (simp add: new_Image_def eval_nat_numeral)

lemma new_Image_overflow_throws: "new_Image 46341 46341 = Inl LengthError"
  by (simp add: new_Image_def)

section \<open>The synthetic data generator\<close>

text \<open>
  Claim C3. On an image whose channels have \<open>width * height\<close> bytes,
  \<open>generateImageData\<close> returns without error, and afterwards, for every linear
  index \<open>i\<close> below \<open>width * height\<close>, the red byte is \<open>(i * 123) mod 256\<close>,
  the green byte \<open>(i * 456) mod 256\<close> and the blue byte \<open>(i * 789) mod 256\<close>, the
  products taken in the integers. The result is a function of the image alone. This
  holds for every size, also where \<open>i * 789\<close> no longer fits an \<open>int\<close>: the wrapped
  product has the same low byte.
\<close>

theorem generateImageData_values:
  assumes "wf_Image img"
  shows "\<exists>img'. generateImageData img = Inr img' \<and>
    length (r img') = pixels img \<and> length (g img') = pixels img \<and> length (b img') = pixels img \<and>
    (\<forall>i < pixels img. unat (r img' ! i) = (i * 123) mod 256 \<and>
                      unat (g img' ! i) = (i * 456) mod 256 \<and>
                      unat (b img' ! i) = (i * 789) mod 256)"
  using narrow_c_rem [of _ 123] narrow_c_rem [of _ 456] narrow_c_rem [of _ 789]
  by (simp add: generateImageData_wf [OF assms])

theorem generateImageData_values_witness:
  "wf_Image \<lparr>width = 2, height = 2, r = [0, 0, 0, 0], g = [0, 0, 0, 0], b = [0, 0, 0, 0],
             gray = [0, 0, 0, 0]\<rparr> \<and>
   (\<exists>img'. generateImageData \<lparr>width = 2, height = 2, r = [0, 0, 0, 0], g = [0, 0, 0, 0],
             b = [0, 0, 0, 0], gray = [0, 0, 0, 0]\<rparr> = Inr img' \<and>
      length (r img') = 4 \<and> length (g img') = 4 \<and> length (b img') = 4 \<and>
      (\<forall>i < 4. unat (r img' ! i) = (i * 123) mod 256 \<and>
               unat (g img' ! i) = (i * 456) mod 256 \<and>
               unat (b img' ! i) = (i * 789) mod 256))"
proof -
  let ?img = "\<lparr>width = 2, height = 2, r = [0, 0, 0, 0], g = [0, 0, 0, 0], b = [0, 0, 0, 0],
             gray = [0, 0, 0, 0 :: uchar]\<rparr>"
  have p: "pixels ?img = 4" by (simp add: pixels_def size_of_def)
  have wf: "wf_Image ?img" by (simp add: wf_Image_def p) (simp add: size_of_def)
  show ?thesis using wf generateImageData_values [OF wf] by (simp add: p)
qed

section \<open>The grayscale converter\<close>

text \<open>
  Claim C1, with the value for white pixels that binary64 arithmetic gives. On an image
  whose channels have \<open>width * height\<close> bytes, \<open>convertToGrayscale\<close> returns
  without error. For every pixel the weighted sum \<open>0.299 * r + 0.587 * g + 0.114 * b\<close>,
  each product and each sum rounded to the nearest double, lies between 0 and 255, so the
  conversion to a byte is defined, and the gray byte is its integer part: the fraction is
  cut off, not rounded. For \<open>r = g = b = 255\<close> the weighted sum is the double 255 and
  the gray byte is 255.
\<close>

theorem convertToGrayscale_values:
  assumes "wf_Image img"
  shows "\<exists>img'. convertToGrayscale img = Inr img' \<and> length (gray img') = pixels img \<and>
    (\<forall>i < pixels img.
       0 \<le> gray_value (r img ! i) (g img ! i) (b img ! i) \<and>
       gray_value (r img ! i) (g img ! i) (b img ! i) \<le> 255 \<and>
       uint (gray img' ! i) = \<lfloor>gray_value (r img ! i) (g img ! i) (b img ! i)\<rfloor> \<and>
       (r img ! i = 255 \<and> g img ! i = 255 \<and> b img ! i = 255 \<longrightarrow> gray img' ! i = 255))"
proof -
  have "(word_of_int \<lfloor>gray_value 255 255 255\<rfloor> :: uchar) = 255"
    by (simp add: gray_value_white)
  then show ?thesis
    by (simp add: convertToGrayscale_wf [OF assms] gray_value_nonneg gray_value_le_255
        uint_gray_byte)
qed

theorem convertToGrayscale_values_witness:
  "wf_Image \<lparr>width = 2, height = 1, r = [1, 123], g = [1, 200], b = [1, 21], gray = [0, 0]\<rparr> \<and>
   (\<exists>img'. convertToGrayscale
       \<lparr>width = 2, height = 1, r = [1, 123], g = [1, 200], b = [1, 21], gray = [0, 0]\<rparr> = Inr img' \<and>
      length (gray img') = 2 \<and>
      uint (gray img' ! 0) = \<lfloor>gray_value 1 1 1\<rfloor> \<and> gray img' ! 0 = 0 \<and>
      uint (gray img' ! 1) = \<lfloor>gray_value 123 200 21\<rfloor> \<and> gray img' ! 1 = 156)"
proof -
  let ?img = "\<lparr>width = 2, height = 1, r = [1, 123], g = [1, 200], b = [1, 21],
      gray = [0, 0 :: uchar]\<rparr>"
  have p: "pixels ?img = 2" by (simp add: pixels_def size_of_def)
  have wf: "wf_Image ?img" by (simp add: wf_Image_def p) (simp add: size_of_def)
  from convertToGrayscale_values [OF wf]
  obtain img' where c: "convertToGrayscale ?img = Inr img'" and l: "length (gray img') = 2"
    and v: "\<forall>i < 2. uint (gray img' ! i) = \<lfloor>gray_value (r ?img ! i) (g ?img ! i) (b ?img ! i)\<rfloor>"
    by (auto simp add: p)
  from v have v0: "uint (gray img' ! 0) = \<lfloor>gray_value 1 1 1\<rfloor>" by simp
  from v have v1: "uint (gray img' ! 1) = \<lfloor>gray_value 123 200 21\<rfloor>" by simp
  from v0 have "uint (gray img' ! 0) = uint (0 :: uchar)" by (simp add: gray_value_samples)
  then have w0: "gray img' ! 0 = 0" by (simp only: word_uint_eq_iff)
  from v1 have "uint (gray img' ! 1) = uint (156 :: uchar)" by (simp add: gray_value_samples)
  then have w1: "gray img' ! 1 = 156" by (simp only: word_uint_eq_iff)
  from wf c l v0 v1 w0 w1 show ?thesis by blast
qed

text \<open>
  Claim C1 states the gray byte 254 for a white pixel. With every operation rounded to
  the nearest double the weighted sum of a white pixel is exactly 255 (lemma
  \<open>white_steps\<close>) and the gray byte is 255, not 254. A sum below 255 needs another
  evaluation of the expression, such as the contracted one of lemma
  \<open>white_contracted\<close>.
\<close>

theorem convertToGrayscale_white:
  "convertToGrayscale \<lparr>width = 1, height = 1, r = [255], g = [255], b = [255], gray = [0]\<rparr> =
     Inr \<lparr>width = 1, height = 1, r = [255], g = [255], b = [255], gray = [255]\<rparr> \<and>
   convertToGrayscale \<lparr>width = 1, height = 1, r = [255], g = [255], b = [255], gray = [0]\<rparr> \<noteq>
     Inr \<lparr>width = 1, height = 1, r = [255], g = [255], b = [255], gray = [254]\<rparr>"
proof -
  let ?img = "\<lparr>width = 1, height = 1, r = [255], g = [255], b = [255], gray = [0 :: uchar]\<rparr>"
  have p: "pixels ?img = 1" by (simp add: pixels_def size_of_def)
  have wf: "wf_Image ?img" by (simp add: wf_Image_def p) (simp add: size_of_def)
  show ?thesis
    by (simp add: convertToGrayscale_wf [OF wf] p gray_value_white)
qed

section \<open>The average calculator\<close>

text \<open>
  Claim C2. On an image whose channels have \<open>width * height\<close> bytes, with
  \<open>width * height\<close> positive, \<open>calculateAverageGray\<close> returns the double nearest
  to the arithmetic mean of the gray bytes: the 64-bit accumulator holds their sum, which
  cannot overflow, and the sum and the pixel count convert to doubles exactly, so the one
  rounding is that of the division, with a relative error of at most \<open>2 powi - 53\<close>.
  The result is exactly 0 when every gray byte is 0 and exactly 255 when every gray byte
  is 255.
\<close>

theorem calculateAverageGray_mean:
  assumes "wf_Image img" and "0 < pixels img"
  shows "calculateAverageGray img =
      Inr (Finite (round_double
        (of_nat (sum_list (map unat (gray img))) / of_nat (pixels img)))) \<and>
    \<bar>round_double (of_nat (sum_list (map unat (gray img))) / of_nat (pixels img))
       - of_nat (sum_list (map unat (gray img))) / of_nat (pixels img)\<bar>
      \<le> (of_nat (sum_list (map unat (gray img))) / of_nat (pixels img)) / 2 ^ 53 \<and>
    ((\<forall>p \<in> set (gray img). p = 0) \<longrightarrow> calculateAverageGray img = Inr (Finite 0)) \<and>
    ((\<forall>p \<in> set (gray img). p = 255) \<longrightarrow> calculateAverageGray img = Inr (Finite 255))"
proof (intro conjI impI)
  let ?S = "sum_list (map unat (gray img))"
  let ?n = "pixels img"
  let ?mean = "of_nat ?S / of_nat ?n :: rat"
  have n: "length (gray img) = ?n" using assms(1) by (simp add: wf_Image_def)
  have npos: "(of_nat ?n :: rat) \<noteq> 0" using assms(2) by simp
  show avg: "calculateAverageGray img = Inr (Finite (round_double ?mean))"
    using npos by (simp add: calculateAverageGray_wf [OF assms(1)] ddiv_def)
  show "\<bar>round_double ?mean - ?mean\<bar> \<le> ?mean / 2 ^ 53"
  proof (cases "?mean = 0")
    case True
    show ?thesis unfolding True round_double_zero by simp
  next
    case False
    have "0 \<le> ?mean" by simp
    then have a: "\<bar>?mean\<bar> = ?mean" by (rule abs_of_nonneg)
    from round_double_error(2) [OF False] show ?thesis by (simp only: a)
  qed
  show "calculateAverageGray img = Inr (Finite 0)" if "\<forall>p \<in> set (gray img). p = 0"
  proof -
    from that have "map unat (gray img) = replicate ?n 0"
      using n by (intro replicate_eqI) auto
    then have S0: "?S = 0" by (simp add: sum_list_replicate)
    show ?thesis unfolding avg S0 by (simp add: round_double_zero)
  qed
  show "calculateAverageGray img = Inr (Finite 255)" if "\<forall>p \<in> set (gray img). p = 255"
  proof -
    from that have "map unat (gray img) = replicate ?n 255"
      using n by (intro replicate_eqI) auto
    then have S255: "?S = ?n * 255" by (simp add: sum_list_replicate)
    have m: "of_nat (?n * 255) / of_nat ?n = (of_int 255 :: rat)" using npos by simp
    have "round_double (of_int 255) = of_int 255"
      by (rule round_double_of_int) simp
    then show ?thesis unfolding avg S255 m by simp
  qed
qed

theorem calculateAverageGray_mean_witness:
  "wf_Image \<lparr>width = 2, height = 2, r = [0, 0, 0, 0], g = [0, 0, 0, 0], b = [0, 0, 0, 0],
             gray = [0, 127, 128, 255]\<rparr> \<and>
   0 < pixels \<lparr>width = 2, height = 2, r = [0, 0, 0, 0], g = [0, 0, 0, 0], b = [0, 0, 0, 0],
             gray = [0, 127, 128, 255]\<rparr> \<and>
   calculateAverageGray \<lparr>width = 2, height = 2, r = [0, 0, 0, 0], g = [0, 0, 0, 0],
             b = [0, 0, 0, 0], gray = [0, 127, 128, 255]\<rparr> = Inr (Finite (255 / 2))"
proof -
  let ?img = "\<lparr>width = 2, height = 2, r = [0, 0, 0, 0], g = [0, 0, 0, 0], b = [0, 0, 0, 0],
             gray = [0, 127, 128, 255 :: uchar]\<rparr>"
  have p: "pixels ?img = 4" by (simp add: pixels_def size_of_def)
  have wf: "wf_Image ?img" by (simp add: wf_Image_def p) (simp add: size_of_def)
  have pos: "0 < pixels ?img" by (simp add: p)
  have rd: "round_double (255 / 2) = 255 / 2" by code_simp
  from calculateAverageGray_mean [OF wf pos]
  have "calculateAverageGray ?img =
      Inr (Finite (round_double (of_nat (sum_list (map unat (gray ?img))) / of_nat (pixels ?img))))"
    by blast
  then have "calculateAverageGray ?img = Inr (Finite (255 / 2))"
    by (simp add: p rd)
  with wf pos show ?thesis by blast
qed

section \<open>The threshold applier\<close>

text \<open>
  Claim C5. On an image whose channels have \<open>width * height\<close> bytes and for every
  threshold \<open>t\<close>, \<open>applyThreshold\<close> returns without error and sets each gray byte
  to 255 when it is at least \<open>t\<close> (a byte equal to \<open>t\<close> included) and to 0
  otherwise. The example of the specification, threshold 128 on the gray bytes
  0, 127, 128, 255, is the witness: the result is 0, 0, 255, 255.
\<close>

theorem applyThreshold_binary:
  assumes "wf_Image img"
  shows "\<exists>img'. applyThreshold img t = Inr img' \<and>
    gray img' = map (\<lambda>p. if t \<le> p then 255 else 0) (gray img) \<and>
    (\<forall>i < pixels img. gray img' ! i = (if t \<le> gray img ! i then 255 else 0))"
proof -
  have "pixels img = length (gray img)" using assms by (simp add: wf_Image_def)
  moreover have "threshold_pixel t = (\<lambda>p. if t \<le> p then 255 else 0)"
    by (rule ext) (simp add: threshold_pixel_def)
  ultimately show ?thesis by (simp add: applyThreshold_wf [OF assms])
qed

theorem applyThreshold_binary_witness:
  "wf_Image \<lparr>width = 2, height = 2, r = [0, 0, 0, 0], g = [0, 0, 0, 0], b = [0, 0, 0, 0],
             gray = [0, 127, 128, 255]\<rparr> \<and>
   (\<exists>img'. applyThreshold \<lparr>width = 2, height = 2, r = [0, 0, 0, 0], g = [0, 0, 0, 0],
             b = [0, 0, 0, 0], gray = [0, 127, 128, 255]\<rparr> 128 = Inr img' \<and>
      gray img' = [0, 0, 255, 255])"
proof -
  let ?img = "\<lparr>width = 2, height = 2, r = [0, 0, 0, 0], g = [0, 0, 0, 0], b = [0, 0, 0, 0],
             gray = [0, 127, 128, 255 :: uchar]\<rparr>"
  have p: "pixels ?img = 4" by (simp add: pixels_def size_of_def)
  have wf: "wf_Image ?img" by (simp add: wf_Image_def p) (simp add: size_of_def)
  from applyThreshold_binary [OF wf, of 128]
  obtain img' where "applyThreshold ?img 128 = Inr img'"
    and "gray img' = map (\<lambda>p. if 128 \<le> p then 255 else 0) (gray ?img)" by blast
  then have "applyThreshold ?img 128 = Inr img' \<and> gray img' = [0, 0, 255, 255]" by simp
  with wf show ?thesis by blast
qed

text \<open>
  Claim C8. Applying \<open>applyThreshold\<close> a second time with the same threshold changes
  nothing: after the first application every gray byte is 0 or 255, and the second maps
  0 to 0 and 255 to 255. This holds for every threshold from 1 to 255, and for 0 as well,
  where the first application leaves no 0 behind.
\<close>

theorem applyThreshold_idempotent:
  assumes "wf_Image img"
  shows "\<exists>img1. applyThreshold img t = Inr img1 \<and>
    (\<forall>p \<in> set (gray img1). p = 0 \<or> p = 255) \<and>
    applyThreshold img1 t = Inr img1"
proof -
  let ?img1 = "img\<lparr>gray := map (threshold_pixel t) (gray img)\<rparr>"
  have 1: "applyThreshold img t = Inr ?img1" by (rule applyThreshold_wf [OF assms])
  have "wf_Image ?img1" using assms by (simp add: wf_Image_gray_update)
  then have "applyThreshold ?img1 t = Inr (?img1\<lparr>gray := map (threshold_pixel t) (gray ?img1)\<rparr>)"
    by (rule applyThreshold_wf)
  then have 2: "applyThreshold ?img1 t = Inr ?img1"
    by (simp add: threshold_pixel_twice)
  have 3: "\<forall>p \<in> set (gray ?img1). p = 0 \<or> p = 255"
    by (auto simp add: threshold_pixel_def)
  from 1 2 3 show ?thesis by blast
qed

theorem applyThreshold_idempotent_witness:
  "wf_Image \<lparr>width = 2, height = 2, r = [0, 0, 0, 0], g = [0, 0, 0, 0], b = [0, 0, 0, 0],
             gray = [0, 127, 128, 255]\<rparr> \<and>
   (\<exists>img1. applyThreshold \<lparr>width = 2, height = 2, r = [0, 0, 0, 0], g = [0, 0, 0, 0],
             b = [0, 0, 0, 0], gray = [0, 127, 128, 255]\<rparr> 128 = Inr img1 \<and>
      (\<forall>p \<in> set (gray img1). p = 0 \<or> p = 255) \<and>
      applyThreshold img1 128 = Inr img1)"
proof -
  let ?img = "\<lparr>width = 2, height = 2, r = [0, 0, 0, 0], g = [0, 0, 0, 0], b = [0, 0, 0, 0],
             gray = [0, 127, 128, 255 :: uchar]\<rparr>"
  have p: "pixels ?img = 4" by (simp add: pixels_def size_of_def)
  have wf: "wf_Image ?img" by (simp add: wf_Image_def p) (simp add: size_of_def)
  from wf applyThreshold_idempotent [OF wf, of 128] show ?thesis by blast
qed

section \<open>The brightness adjuster\<close>

text \<open>
  Claim C4. \<open>adjustBrightness\<close> is to set each gray byte to the sum of the byte and
  the offset, taken without overflow and clamped to the bytes 0 to 255. The sum is taken
  in \<open>int\<close>: for an offset up to \<open>2 ^ 31 - 256\<close> it cannot overflow and the result
  is the clamped sum (lemma \<open>adjustBrightness_clamps\<close>). For a larger offset and a
  large enough byte the sum leaves the range of \<open>int\<close>. With the offset 2147483647
  and the gray byte 1 the wrapped sum is negative and the second clamp stores 0, where the
  clamped sum of the integers is 255.
\<close>

theorem adjustBrightness_overflow:
  "adjustBrightness \<lparr>width = 1, height = 1, r = [0], g = [0], b = [0], gray = [1]\<rparr> 2147483647
     = Inr \<lparr>width = 1, height = 1, r = [0], g = [0], b = [0], gray = [0]\<rparr>"
proof -
  let ?img = "\<lparr>width = 1, height = 1, r = [0], g = [0], b = [0], gray = [1 :: uchar]\<rparr>"
  have "adjustBrightness ?img 2147483647 =
      Inr (?img\<lparr>gray := map (adjust_pixel 2147483647) (gray ?img)\<rparr>)"
    by (rule adjustBrightness_wf [OF wf_Image_one_pixel])
  then show ?thesis by (simp add: adjust_pixel_overflow)
qed

text \<open>
  Claim C7. With the offset 0, \<open>adjustBrightness\<close> returns the image as it was.
  With the offset 1000 it sets every gray byte to 255, and a following call with the
  offset - 1000 sets every gray byte to 0: the two calls give back the gray channel they
  started from exactly when that channel was all 0, so the composition is not the
  identity on images.
\<close>

theorem adjustBrightness_round_trip:
  assumes "wf_Image img"
  shows "adjustBrightness img 0 = Inr img \<and>
    (\<exists>img1 img2. adjustBrightness img 1000 = Inr img1 \<and>
       (\<forall>p \<in> set (gray img1). p = 255) \<and>
       adjustBrightness img1 (- 1000) = Inr img2 \<and>
       (\<forall>p \<in> set (gray img2). p = 0) \<and>
       (gray img2 = gray img \<longleftrightarrow> (\<forall>p \<in> set (gray img). p = 0))) \<and>
    \<not> (\<forall>img'. wf_Image img' \<longrightarrow>
          (\<exists>img1 img2. adjustBrightness img' 1000 = Inr img1 \<and>
             adjustBrightness img1 (- 1000) = Inr img2 \<and> gray img2 = gray img'))"
proof (intro conjI)
  show "adjustBrightness img 0 = Inr img" by (rule adjustBrightness_zero [OF assms])
next
  have n: "length (gray img) = pixels img" using assms by (simp add: wf_Image_def)
  from adjustBrightness_up_down [OF assms]
  obtain img1 img2 where 1: "adjustBrightness img 1000 = Inr img1"
    and g1: "gray img1 = replicate (pixels img) 255"
    and 2: "adjustBrightness img1 (- 1000) = Inr img2"
    and g2: "gray img2 = replicate (pixels img) 0" by blast
  from g2 have "gray img2 = gray img \<longleftrightarrow> (\<forall>p \<in> set (gray img). p = 0)"
    using replicate_zero_iff [OF n] by simp
  moreover from g1 have "\<forall>p \<in> set (gray img1). p = 255" by simp
  moreover from g2 have "\<forall>p \<in> set (gray img2). p = 0" by simp
  ultimately show "\<exists>img1 img2. adjustBrightness img 1000 = Inr img1 \<and>
       (\<forall>p \<in> set (gray img1). p = 255) \<and>
       adjustBrightness img1 (- 1000) = Inr img2 \<and>
       (\<forall>p \<in> set (gray img2). p = 0) \<and>
       (gray img2 = gray img \<longleftrightarrow> (\<forall>p \<in> set (gray img). p = 0))"
    using 1 2 by blast
next
  let ?one = "\<lparr>width = 1, height = 1, r = [0], g = [0], b = [0], gray = [1 :: uchar]\<rparr>"
  show "\<not> (\<forall>img'. wf_Image img' \<longrightarrow>
          (\<exists>img1 img2. adjustBrightness img' 1000 = Inr img1 \<and>
             adjustBrightness img1 (- 1000) = Inr img2 \<and> gray img2 = gray img'))"
  proof
    assume "\<forall>img'. wf_Image img' \<longrightarrow>
          (\<exists>img1 img2. adjustBrightness img' 1000 = Inr img1 \<and>
             adjustBrightness img1 (- 1000) = Inr img2 \<and> gray img2 = gray img')"
    then obtain img1 img2 where a: "adjustBrightness ?one 1000 = Inr img1"
      "adjustBrightness img1 (- 1000) = Inr img2" "gray img2 = gray ?one"
      using wf_Image_one_pixel [of 1] by blast
    from adjustBrightness_up_down [OF wf_Image_one_pixel [of 1]]
    obtain j1 j2 where b: "adjustBrightness ?one 1000 = Inr j1"
      "adjustBrightness j1 (- 1000) = Inr j2" "gray j2 = replicate (pixels ?one) 0" by blast
    from a b have "gray ?one = replicate (pixels ?one) 0" by simp
    then show False by (simp add: pixels_one_pixel)
  qed
qed

theorem adjustBrightness_round_trip_witness:
  "wf_Image \<lparr>width = 2, height = 2, r = [0, 0, 0, 0], g = [0, 0, 0, 0], b = [0, 0, 0, 0],
             gray = [0, 127, 128, 255]\<rparr> \<and>
   adjustBrightness \<lparr>width = 2, height = 2, r = [0, 0, 0, 0], g = [0, 0, 0, 0],
             b = [0, 0, 0, 0], gray = [0, 127, 128, 255]\<rparr> 0 =
     Inr \<lparr>width = 2, height = 2, r = [0, 0, 0, 0], g = [0, 0, 0, 0],
             b = [0, 0, 0, 0], gray = [0, 127, 128, 255]\<rparr> \<and>
   (\<exists>img1 img2. adjustBrightness \<lparr>width = 2, height = 2, r = [0, 0, 0, 0], g = [0, 0, 0, 0],
             b = [0, 0, 0, 0], gray = [0, 127, 128, 255]\<rparr> 1000 = Inr img1 \<and>
       (\<forall>p \<in> set (gray img1). p = 255) \<and>
       adjustBrightness img1 (- 1000) = Inr img2 \<and>
       (\<forall>p \<in> set (gray img2). p = 0) \<and> gray img2 \<noteq> [0, 127, 128, 255])"
proof -
  let ?img = "\<lparr>width = 2, height = 2, r = [0, 0, 0, 0], g = [0, 0, 0, 0], b = [0, 0, 0, 0],
             gray = [0, 127, 128, 255 :: uchar]\<rparr>"
  have p: "pixels ?img = 4" by (simp add: pixels_def size_of_def)
  have wf: "wf_Image ?img" by (simp add: wf_Image_def p) (simp add: size_of_def)
  from adjustBrightness_round_trip [OF wf]
  have 0: "adjustBrightness ?img 0 = Inr ?img" by blast
  from adjustBrightness_round_trip [OF wf]
  obtain img1 img2 where "adjustBrightness ?img 1000 = Inr img1"
    and "\<forall>p \<in> set (gray img1). p = 255"
    and "adjustBrightness img1 (- 1000) = Inr img2"
    and "\<forall>p \<in> set (gray img2). p = 0"
    and "gray img2 = gray ?img \<longleftrightarrow> (\<forall>p \<in> set (gray ?img). p = 0)" by blast
  then have "adjustBrightness ?img 1000 = Inr img1 \<and> (\<forall>p \<in> set (gray img1). p = 255) \<and>
      adjustBrightness img1 (- 1000) = Inr img2 \<and> (\<forall>p \<in> set (gray img2). p = 0) \<and>
      gray img2 \<noteq> [0, 127, 128, 255]"
    by simp
  with wf 0 show ?thesis by blast
qed

section \<open>The command line\<close>

text \<open>
  Claim C6. Without arguments \<open>main\<close> keeps the defaults, width 1024 and height
  1024. With two arguments or more it takes the width from the first and the height from
  the second. With one argument it still reads \<open>argv[2]\<close>, which then is the null
  pointer that ends \<open>argv\<close>, one place behind the last argument, and hands it to
  \<open>atoi\<close>: the behaviour is undefined, neither an error that the program reports
  nor the default.
\<close>

theorem main_dimensions_cases:
  "main_dimensions atoi [] = Inr (1024, 1024) \<and>
   main_dimensions atoi [prog] = Inr (1024, 1024) \<and>
   main_dimensions atoi [prog, a] = Inl NullPointer \<and>
   main_dimensions atoi (prog # a # c # rest) = Inr (atoi a, atoi c)"
  by (simp add: main_dimensions_def call_atoi_def argv_at_def)

section \<open>The invariant of the image and the frame of each function\<close>

text \<open>
  Claim C9. The four channels are to have \<open>width * height\<close> bytes each, the product
  taken in the integers. The constructor takes the product in \<open>int\<close>. Where it fits,
  the image that the constructor returns has four channels of that many bytes and the
  width and height it was given, and a call of any of the five functions returns without
  error and keeps the lengths, the width and the height (lemmas
  \<open>new_Image_channels_match\<close> and \<open>call_channels_match\<close>). Where it does not fit,
  the lengths follow the wrapped product: with width 65536 and height 65536 the
  constructor returns four empty channels, where the product is 4294967296.
\<close>

theorem new_Image_overflow:
  "new_Image 65536 65536 =
     Inr \<lparr>width = 65536, height = 65536, r = [], g = [], b = [], gray = []\<rparr> \<and>
   sint (65536 :: cint) * sint (65536 :: cint) = 4294967296 \<and>
   \<not> channels_match \<lparr>width = 65536, height = 65536, r = [], g = [], b = [], gray = []\<rparr>"
  by (simp add: new_Image_def channels_match_def)

text \<open>
  Claim C10. On an image whose channels have \<open>width * height\<close> bytes,
  \<open>generateImageData\<close> leaves the gray channel, the width and the height as they
  were; \<open>convertToGrayscale\<close>, \<open>adjustBrightness\<close> and \<open>applyThreshold\<close> leave
  the red, green and blue channels, the width and the height as they were; and
  \<open>calculateAverageGray\<close> returns a value and the caller's image is the one it passed.
\<close>

theorem frame_conditions:
  assumes "wf_Image img"
  shows "(\<exists>img'. generateImageData img = Inr img' \<and> gray img' = gray img \<and>
            width img' = width img \<and> height img' = height img) \<and>
         (\<exists>img'. convertToGrayscale img = Inr img' \<and> r img' = r img \<and> g img' = g img \<and>
            b img' = b img \<and> width img' = width img \<and> height img' = height img) \<and>
         (\<exists>img'. adjustBrightness img offset = Inr img' \<and> r img' = r img \<and> g img' = g img \<and>
            b img' = b img \<and> width img' = width img \<and> height img' = height img) \<and>
         (\<exists>img'. applyThreshold img t = Inr img' \<and> r img' = r img \<and> g img' = g img \<and>
            b img' = b img \<and> width img' = width img \<and> height img' = height img) \<and>
         (\<exists>avg. calculateAverageGray img = Inr avg \<and> call Average img = Inr (img, Some avg))"
proof (intro conjI)
  show "\<exists>img'. generateImageData img = Inr img' \<and> gray img' = gray img \<and>
            width img' = width img \<and> height img' = height img"
    by (simp add: generateImageData_wf [OF assms])
  show "\<exists>img'. convertToGrayscale img = Inr img' \<and> r img' = r img \<and> g img' = g img \<and>
            b img' = b img \<and> width img' = width img \<and> height img' = height img"
    by (simp add: convertToGrayscale_wf [OF assms])
  show "\<exists>img'. adjustBrightness img offset = Inr img' \<and> r img' = r img \<and> g img' = g img \<and>
            b img' = b img \<and> width img' = width img \<and> height img' = height img"
    by (simp add: adjustBrightness_wf [OF assms])
  show "\<exists>img'. applyThreshold img t = Inr img' \<and> r img' = r img \<and> g img' = g img \<and>
            b img' = b img \<and> width img' = width img \<and> height img' = height img"
    by (simp add: applyThreshold_wf [OF assms])
  show "\<exists>avg. calculateAverageGray img = Inr avg \<and> call Average img = Inr (img, Some avg)"
    by (simp add: calculateAverageGray_wf [OF assms])
qed

theorem frame_conditions_witness:
  "wf_Image \<lparr>width = 2, height = 1, r = [1, 123], g = [1, 200], b = [1, 21], gray = [7, 9]\<rparr> \<and>
   (\<exists>img'. generateImageData
        \<lparr>width = 2, height = 1, r = [1, 123], g = [1, 200], b = [1, 21], gray = [7, 9]\<rparr> = Inr img' \<and>
      gray img' = [7, 9] \<and> width img' = 2 \<and> height img' = 1) \<and>
   (\<exists>img'. convertToGrayscale
        \<lparr>width = 2, height = 1, r = [1, 123], g = [1, 200], b = [1, 21], gray = [7, 9]\<rparr> = Inr img' \<and>
      r img' = [1, 123] \<and> g img' = [1, 200] \<and> b img' = [1, 21] \<and> width img' = 2 \<and> height img' = 1) \<and>
   (\<exists>img'. adjustBrightness
        \<lparr>width = 2, height = 1, r = [1, 123], g = [1, 200], b = [1, 21], gray = [7, 9]\<rparr> 20 = Inr img' \<and>
      r img' = [1, 123] \<and> g img' = [1, 200] \<and> b img' = [1, 21] \<and> width img' = 2 \<and> height img' = 1) \<and>
   (\<exists>img'. applyThreshold
        \<lparr>width = 2, height = 1, r = [1, 123], g = [1, 200], b = [1, 21], gray = [7, 9]\<rparr> 128 = Inr img' \<and>
      r img' = [1, 123] \<and> g img' = [1, 200] \<and> b img' = [1, 21] \<and> width img' = 2 \<and> height img' = 1) \<and>
   (\<exists>avg. call Average
        \<lparr>width = 2, height = 1, r = [1, 123], g = [1, 200], b = [1, 21], gray = [7, 9]\<rparr> =
      Inr (\<lparr>width = 2, height = 1, r = [1, 123], g = [1, 200], b = [1, 21], gray = [7, 9]\<rparr>,
           Some avg))"
proof -
  let ?img = "\<lparr>width = 2, height = 1, r = [1, 123], g = [1, 200], b = [1, 21],
      gray = [7, 9 :: uchar]\<rparr>"
  have p: "pixels ?img = 2" by (simp add: pixels_def size_of_def)
  have wf: "wf_Image ?img" by (simp add: wf_Image_def p) (simp add: size_of_def)
  from frame_conditions [OF wf, of 20 128] wf show ?thesis
    by (simp del: call.simps) blast
qed

end
